theory Spec2Isabelle
  imports Main
begin

section \<open>The village of task\_4.py\<close>

text \<open>
  The simulation of \<^verbatim>\<open>src/task_4.py\<close>: a village holds a list of references to
  residents, some of which are barbers; every step of \<^verbatim>\<open>Village.run\<close> lets the
  barber that is free next shave the resident that is due next.

  Times are annotated \<^verbatim>\<open>float\<close> in the source and the driver passes Python integers;
  Python enforces neither. The model is generic in the type \<open>'t\<close> of times: the definitions
  use nothing but \<open>0\<close>, \<open>+\<close>, \<open>\<noteq>\<close> and \<open><\<close> of a linear order. \<open>int\<close> (the driver's
  values) and \<open>real\<close> are such types, and so is the type of times with the rounding
  addition of machine floats that is defined below.
\<close>

subsection \<open>Objects\<close>

text \<open>
  Python objects have an identity and are mutated in place, the village's list holds
  references, and \<^verbatim>\<open>resident is self\<close> compares identities. So objects live in a
  heap indexed by references; a list may hold the same reference more than once.
\<close>

type_synonym ref = nat

text \<open>\<^verbatim>\<open>class Resident\<close>: the three private fields set by \<^verbatim>\<open>__init__\<close>.\<close>

record 't Resident =
  name :: string
  beard_growth_time :: 't
  last_shave_time :: 't

text \<open>\<^verbatim>\<open>class Barber(Resident)\<close>: the subclass adds two fields.\<close>

record 't Barber = "'t Resident" +
  shave_time :: 't
  busy_till :: 't

text \<open>What a reference of static type \<^verbatim>\<open>Village.Resident\<close> can point to.\<close>

datatype 't obj = Res "'t Resident" | Bar "'t Barber"

text \<open>The exceptions that the code of this file can raise.\<close>

datatype py_error =
    ValueError          \<comment> \<open>\<^verbatim>\<open>min()\<close> of an empty sequence\<close>
  | AttributeError      \<comment> \<open>\<^verbatim>\<open>shave\<close> looked up on an object that is no Barber\<close>
  | KeyboardInterrupt   \<comment> \<open>the external interrupt\<close>

text \<open>
  What the \<^verbatim>\<open>print\<close> calls of \<^verbatim>\<open>shave\<close> write, one token for each call: the
  header \<^verbatim>\<open>f"{time}: barber {self} shaves inhabitant {resident}."\<close> with its three
  interpolated values, the two optional flags, and the final line break.
\<close>

datatype 't printed =
    Shaves 't string string
  | Himself               \<comment> \<open>\<^verbatim>\<open>" Barber shaves himself!"\<close>\<close>
  | Late                  \<comment> \<open>\<^verbatim>\<open>" Barber is late for the shave!"\<close>\<close>
  | Newline               \<comment> \<open>\<^verbatim>\<open>print()\<close>\<close>

text \<open>
  The state a run works on: the village's list \<^verbatim>\<open>self.residents\<close>, the objects its
  references point to, and what has been printed so far.
\<close>

record 't Village =
  residents :: "ref list"
  heap :: "ref \<Rightarrow> 't obj"
  stdout :: "'t printed list"

text \<open>
  A call either returns, or raises an exception; the mutations done before the exception
  stay, so both carry the state.
\<close>

datatype 't outcome = Returned "'t Village" | Raised py_error "'t Village"

subsection \<open>Resident and Barber\<close>

definition Resident_init :: "string \<Rightarrow> 't \<Rightarrow> ('t::zero) Resident" where
  "Resident_init nm growth =
     \<lparr>name = nm, beard_growth_time = growth, last_shave_time = 0\<rparr>"

definition Barber_init :: "string \<Rightarrow> 't \<Rightarrow> 't \<Rightarrow> ('t::zero) Barber" where
  "Barber_init nm growth shave_t =
     \<lparr>name = nm, beard_growth_time = growth, last_shave_time = 0,
      shave_time = shave_t, busy_till = 0\<rparr>"

text \<open>\<^verbatim>\<open>_get_next_shave_time\<close> and \<^verbatim>\<open>set_last_shave_time\<close>, inherited by Barber.\<close>

definition get_next_shave_time :: "('t::plus, 'z) Resident_scheme \<Rightarrow> 't" where
  "get_next_shave_time self = last_shave_time self + beard_growth_time self"

definition set_last_shave_time ::
  "'t \<Rightarrow> ('t, 'z) Resident_scheme \<Rightarrow> ('t, 'z) Resident_scheme" where
  "set_last_shave_time time self = self\<lparr>last_shave_time := time\<rparr>"

text \<open>The same methods and fields, reached through a reference to either class.\<close>

fun obj_name :: "'t obj \<Rightarrow> string" where
  "obj_name (Res r) = name r"
| "obj_name (Bar b) = name b"

fun obj_beard_growth_time :: "'t obj \<Rightarrow> 't" where
  "obj_beard_growth_time (Res r) = beard_growth_time r"
| "obj_beard_growth_time (Bar b) = beard_growth_time b"

fun obj_last_shave_time :: "'t obj \<Rightarrow> 't" where
  "obj_last_shave_time (Res r) = last_shave_time r"
| "obj_last_shave_time (Bar b) = last_shave_time b"

fun obj_next_shave_time :: "('t::plus) obj \<Rightarrow> 't" where
  "obj_next_shave_time (Res r) = get_next_shave_time r"
| "obj_next_shave_time (Bar b) = get_next_shave_time b"

fun obj_set_last_shave_time :: "'t \<Rightarrow> 't obj \<Rightarrow> 't obj" where
  "obj_set_last_shave_time time (Res r) = Res (set_last_shave_time time r)"
| "obj_set_last_shave_time time (Bar b) = Bar (set_last_shave_time time b)"

text \<open>\<^verbatim>\<open>isinstance(r, Village.Barber)\<close>, with the downcast it licenses.\<close>

fun as_Barber :: "'t obj \<Rightarrow> 't Barber option" where
  "as_Barber (Res r) = None"
| "as_Barber (Bar b) = Some b"

definition isinstance_Barber :: "'t obj \<Rightarrow> bool" where
  "isinstance_Barber x = (as_Barber x \<noteq> None)"

subsection \<open>The interrupt\<close>

text \<open>
  \<^verbatim>\<open>KeyboardInterrupt\<close> is raised by the environment, between two statements of the
  program. The model takes the place where it is raised as an input: a \<open>point\<close> names the
  line of the loop body (lines 108 to 111, and lines 62 to 69 of \<^verbatim>\<open>shave\<close>) that
  was about to run. Lines 64 and 66 are the bodies of the two \<^verbatim>\<open>if\<close>s: the state
  before them is the state before the line that follows them once they have run, so
  they need no point of their own.
\<close>

datatype point = L108 | L109 | L110 | L62 | L63 | L65 | L67 | L68 | L69

subsection \<open>Barber.shave\<close>

definition print :: "'t printed \<Rightarrow> 't Village \<Rightarrow> 't Village" where
  "print x v = v\<lparr>stdout := stdout v @ [x]\<rparr>"

text \<open>
  Lines 58 to 69. The receiver is a Barber (\<^verbatim>\<open>shave\<close> is no method of Resident, so
  the call raises on any other object). The interrupt, when it is due inside this call,
  is raised before the line it names; \<open>intr = None\<close> is the call running undisturbed.
  Line 69 reads the field that line 68 has just written.
\<close>

definition shave ::
  "point option \<Rightarrow> ref \<Rightarrow> 't \<Rightarrow> ref \<Rightarrow> ('t::plus) Village \<Rightarrow> 't outcome" where
  "shave intr self time resident v =
     (case heap v self of
        Res _ \<Rightarrow> Raised AttributeError v
      | Bar b \<Rightarrow>
          if intr = Some L62 then Raised KeyboardInterrupt v else
          let v1 = print (Shaves time (name b) (obj_name (heap v resident))) v in
          if intr = Some L63 then Raised KeyboardInterrupt v1 else
          let v2 = (if resident = self then print Himself v1 else v1) in
          if intr = Some L65 then Raised KeyboardInterrupt v2 else
          let v3 = (if time \<noteq> obj_next_shave_time (heap v2 resident)
                    then print Late v2 else v2) in
          if intr = Some L67 then Raised KeyboardInterrupt v3 else
          let v4 = print Newline v3 in
          if intr = Some L68 then Raised KeyboardInterrupt v4 else
          let busy = time + shave_time b;
              v5 = v4\<lparr>heap := (heap v4)(self := Bar (b\<lparr>busy_till := busy\<rparr>))\<rparr> in
          if intr = Some L69 then Raised KeyboardInterrupt v5 else
          Returned (v5\<lparr>heap := (heap v5)
                      (resident := obj_set_last_shave_time busy (heap v5 resident))\<rparr>))"

subsection \<open>Village\<close>

definition Village_init :: "(ref \<Rightarrow> 't obj) \<Rightarrow> 't printed list \<Rightarrow> 't Village" where
  "Village_init h out = \<lparr>residents = [], heap = h, stdout = out\<rparr>"

definition add_resident :: "ref \<Rightarrow> 't Village \<Rightarrow> 't Village" where
  "add_resident resident v = v\<lparr>residents := residents v @ [resident]\<rparr>"

text \<open>
  Python's \<^verbatim>\<open>min(xs, key=f)\<close>: \<^verbatim>\<open>ValueError\<close> on an empty sequence; otherwise it
  walks the sequence once and replaces the candidate only by an item whose key is
  strictly smaller.
\<close>

fun py_min :: "('a \<Rightarrow> 'k::linorder) \<Rightarrow> 'a list \<Rightarrow> py_error + 'a" where
  "py_min key [] = Inl ValueError"
| "py_min key (x # xs) =
     Inr (foldl (\<lambda>best item. if key item < key best then item else best) x xs)"

text \<open>Python's \<^verbatim>\<open>max(a, b)\<close>: the second argument wins only if strictly greater.\<close>

definition py_max :: "'k::linorder \<Rightarrow> 'k \<Rightarrow> 'k" where
  "py_max a b = (if a < b then b else a)"

text \<open>Line 85.\<close>

definition get_next_shave :: "('t::{plus,linorder}) Village \<Rightarrow> py_error + ref" where
  "get_next_shave v = py_min (\<lambda>x. obj_next_shave_time (heap v x)) (residents v)"

text \<open>
  Lines 91 and 92. The comprehension keeps the references to Barbers, in the order of
  the list; the key reads \<^verbatim>\<open>busy_till()\<close> of the Barber behind the reference.
\<close>

definition barbers :: "'t Village \<Rightarrow> (ref \<times> 't Barber) list" where
  "barbers v =
     List.map_filter (\<lambda>r. map_option (Pair r) (as_Barber (heap v r))) (residents v)"

definition get_next_free_barber ::
  "('t::linorder) Village \<Rightarrow> py_error + (ref \<times> 't Barber)" where
  "get_next_free_barber v = py_min (\<lambda>x. busy_till (snd x)) (barbers v)"

text \<open>
  Lines 108 to 111, one pass through the body of the loop. \<open>intr\<close> is the place where
  the interrupt is raised during this pass, if it is.
\<close>

definition step :: "point option \<Rightarrow> ('t::{plus,linorder}) Village \<Rightarrow> 't outcome" where
  "step intr v =
     (if intr = Some L108 then Raised KeyboardInterrupt v else
      case get_next_shave v of
        Inl e \<Rightarrow> Raised e v
      | Inr resident \<Rightarrow>
          if intr = Some L109 then Raised KeyboardInterrupt v else
          (case get_next_free_barber v of
             Inl e \<Rightarrow> Raised e v
           | Inr (barber, b) \<Rightarrow>
               if intr = Some L110 then Raised KeyboardInterrupt v else
               let time = py_max (obj_next_shave_time (heap v resident)) (busy_till b)
               in shave intr barber time resident v))"

text \<open>
  Lines 94 to 100: the generator stops before yielding \<open>i\<close> when this holds; \<open>-1\<close> asks
  for a loop without end.
\<close>

definition range_stops :: "int \<Rightarrow> int \<Rightarrow> bool" where
  "range_stops count i = (count \<noteq> -1 \<and> i \<ge> count)"

text \<open>
  The interrupt of a whole run: the pass of the loop (the value of \<open>i\<close>) and the place
  in it where it is raised. An interrupt due in a pass that the loop never reaches does
  not happen during the loop.
\<close>

definition due :: "(int \<times> point) option \<Rightarrow> int \<Rightarrow> point option" where
  "due intr i = (case intr of
                   None \<Rightarrow> None
                 | Some (k, p) \<Rightarrow> if k = i then Some p else None)"

text \<open>
  Line 107 to 111, the loop from the generator's state \<open>i\<close> on. It may run forever:
  \<open>None\<close> is the run that does not return.
\<close>

partial_function (option) run_loop ::
  "int \<Rightarrow> int \<Rightarrow> (int \<times> point) option \<Rightarrow> ('t::{plus,linorder}) Village
     \<Rightarrow> 't outcome option" where
  "run_loop count i intr v =
     (if range_stops count i then Some (Returned v)
      else case step (due intr i) v of
             Raised e v' \<Rightarrow> Some (Raised e v')
           | Returned v' \<Rightarrow> run_loop count (i + 1) intr v')"

declare run_loop.simps [code]

text \<open>Lines 102 to 113: the handler swallows \<^verbatim>\<open>KeyboardInterrupt\<close> and nothing else.\<close>

definition run ::
  "int \<Rightarrow> (int \<times> point) option \<Rightarrow> ('t::{plus,linorder}) Village \<Rightarrow> 't outcome option" where
  "run count intr v =
     (case run_loop count 0 intr v of
        None \<Rightarrow> None
      | Some (Returned v') \<Rightarrow> Some (Returned v')
      | Some (Raised e v') \<Rightarrow>
          if e = KeyboardInterrupt then Some (Returned v') else Some (Raised e v'))"

text \<open>Lines 116 to 121: the three objects of the driver, and the village it builds.\<close>

definition main_heap :: "ref \<Rightarrow> int obj" where
  "main_heap =
     (\<lambda>_. Res (Resident_init ''r1'' 2))
       (1 := Res (Resident_init ''r2'' 4), 2 := Bar (Barber_init ''b1'' 6 1))"

definition main_village :: "int Village" where
  "main_village =
     add_resident 2 (add_resident 1 (add_resident 0 (Village_init main_heap [])))"

text \<open>
  The driver's village after its first pass, and as an interrupt leaves it that is
  raised in the first pass before line 69.
\<close>

definition main_stepped :: "int Village" where
  "main_stepped =
     \<lparr>residents = [0, 1, 2],
      heap = main_heap
        (2 := Bar \<lparr>name = ''b1'', beard_growth_time = 6, last_shave_time = 0,
                   shave_time = 1, busy_till = 3\<rparr>,
         0 := Res \<lparr>name = ''r1'', beard_growth_time = 2, last_shave_time = 3\<rparr>),
      stdout = [Shaves 2 ''b1'' ''r1'', Newline]\<rparr>"

definition main_interrupted :: "int Village" where
  "main_interrupted =
     \<lparr>residents = [0, 1, 2],
      heap = main_heap
        (2 := Bar \<lparr>name = ''b1'', beard_growth_time = 6, last_shave_time = 0,
                   shave_time = 1, busy_till = 3\<rparr>),
      stdout = [Shaves 2 ''b1'' ''r1'', Newline]\<rparr>"

text \<open>A village of the same objects without the barber.\<close>

definition no_barber_village :: "int Village" where
  "no_barber_village = add_resident 1 (add_resident 0 (Village_init main_heap []))"

text \<open>
  A village with ties: a resident due at 5, two residents due at 4, and two idle barbers.
\<close>

definition tie_heap :: "ref \<Rightarrow> int obj" where
  "tie_heap =
     (\<lambda>_. Res (Resident_init ''r0'' 5))
       (1 := Res (Resident_init ''r1'' 4), 2 := Res (Resident_init ''r2'' 4),
        3 := Bar (Barber_init ''b1'' 6 1), 4 := Bar (Barber_init ''b2'' 6 1))"

definition tie_village :: "int Village" where
  "tie_village =
     add_resident 4 (add_resident 3 (add_resident 2 (add_resident 1 (add_resident 0
       (Village_init tie_heap [])))))"

subsection \<open>Times that round\<close>

text \<open>
  The source annotates times as \<^verbatim>\<open>float\<close>. \<open>Fl n\<close> stands for the double \<open>n / 2 ^ 60\<close>,
  so that \<open>Fl (2 ^ 60)\<close> is \<^verbatim>\<open>1.0\<close>. The sum of two doubles is their exact sum rounded
  to 53 significant bits, ties to the even mantissa: the addition of IEEE 754 binary64,
  as long as nothing overflows. \<open>excess m\<close> is the number of low bits that \<open>m\<close> has
  beyond 53, and \<open>round53\<close> rounds them away.
\<close>

datatype float_time = Fl int

function excess :: "int \<Rightarrow> nat" where
  "excess m = (if m < 2 ^ 53 then 0 else Suc (excess (m div 2)))"
  by pat_completeness auto
termination
  by (relation "measure nat") auto

declare excess.simps [simp del]

definition round53 :: "int \<Rightarrow> int" where
  "round53 n =
     (let e = excess \<bar>n\<bar>; q = n div 2 ^ e; r = n mod 2 ^ e
      in if e = 0 then n
         else (if 2 ^ e < 2 * r \<or> (2 * r = 2 ^ e \<and> odd q) then q + 1 else q) * 2 ^ e)"

instantiation float_time :: "{zero, plus, linorder}"
begin

definition zero_float_time :: float_time where
  "zero_float_time = Fl 0"

fun plus_float_time :: "float_time \<Rightarrow> float_time \<Rightarrow> float_time" where
  "plus_float_time (Fl a) (Fl b) = Fl (round53 (a + b))"

fun less_eq_float_time :: "float_time \<Rightarrow> float_time \<Rightarrow> bool" where
  "less_eq_float_time (Fl a) (Fl b) = (a \<le> b)"

fun less_float_time :: "float_time \<Rightarrow> float_time \<Rightarrow> bool" where
  "less_float_time (Fl a) (Fl b) = (a < b)"

instance
proof
  fix x y z :: float_time
  show "(x < y) = (x \<le> y \<and> \<not> y \<le> x)" by (cases x; cases y) auto
  show "x \<le> x" by (cases x) simp
  show "x \<le> y \<Longrightarrow> y \<le> z \<Longrightarrow> x \<le> z" by (cases x; cases y; cases z) simp
  show "x \<le> y \<Longrightarrow> y \<le> x \<Longrightarrow> x = y" by (cases x; cases y) simp
  show "x \<le> y \<or> y \<le> x" by (cases x; cases y) auto
qed

end










subsection \<open>Notions that the properties are stated with\<close>

text \<open>The village holds at least one Barber.\<close>

definition has_barber :: "'t Village \<Rightarrow> bool" where
  "has_barber v = (\<exists>r \<in> set (residents v). isinstance_Barber (heap v r))"

text \<open>The Barber fields behind a reference; \<open>None\<close> when the object is no Barber.\<close>

definition obj_busy_till :: "'t obj \<Rightarrow> 't option" where
  "obj_busy_till x = map_option busy_till (as_Barber x)"

definition obj_shave_time :: "'t obj \<Rightarrow> 't option" where
  "obj_shave_time x = map_option shave_time (as_Barber x)"

text \<open>The number of shaves that an output records: each shave prints one header.\<close>

fun is_header :: "'t printed \<Rightarrow> bool" where
  "is_header (Shaves t b r) = True"
| "is_header _ = False"

definition shave_events :: "'t printed list \<Rightarrow> nat" where
  "shave_events out = length (filter is_header out)"




section \<open>Selection\<close>

text \<open>
  The scan of \<^verbatim>\<open>min\<close> returns an item that splits the sequence: every item before it
  has a strictly greater key, every item after it a key that is not smaller.
\<close>

lemma py_min_split:
  fixes key :: "'a \<Rightarrow> 'k::linorder"
  shows "\<exists>ys zs. x # xs = ys @ foldl (\<lambda>best item. if key item < key best then item else best) x xs # zs
          \<and> (\<forall>y \<in> set ys. key (foldl (\<lambda>best item. if key item < key best then item else best) x xs) < key y)
          \<and> (\<forall>z \<in> set zs. key (foldl (\<lambda>best item. if key item < key best then item else best) x xs) \<le> key z)"
proof (induction xs rule: rev_induct)
  case Nil
  show ?case by (intro exI[of _ "[]"]) simp
next
  case (snoc a xs)
  let ?f = "\<lambda>best item. if key item < key best then item else best"
  from snoc obtain ys zs where split: "x # xs = ys @ foldl ?f x xs # zs"
    and before: "\<forall>y \<in> set ys. key (foldl ?f x xs) < key y"
    and after: "\<forall>z \<in> set zs. key (foldl ?f x xs) \<le> key z"
    by blast
  show ?case
  proof (cases "key a < key (foldl ?f x xs)")
    case True
    have all: "\<forall>y \<in> set (x # xs). key a < key y"
    proof
      fix y assume "y \<in> set (x # xs)"
      then have "y \<in> set ys \<or> y = foldl ?f x xs \<or> y \<in> set zs"
        by (subst (asm) split) auto
      with before after True show "key a < key y" by force
    qed
    have "x # xs @ [a] = (x # xs) @ a # []" by simp
    with all True show ?thesis
      by (intro exI[of _ "x # xs"] exI[of _ "[]"]) simp
  next
    case False
    have "x # xs @ [a] = ys @ foldl ?f x xs # (zs @ [a])"
      using split by simp
    with before after False show ?thesis
      by (intro exI[of _ ys] exI[of _ "zs @ [a]"]) auto
  qed
qed

lemma py_min_first:
  fixes key :: "'a \<Rightarrow> 'k::linorder"
  assumes "xs \<noteq> []"
  shows "\<exists>r ys zs. py_min key xs = Inr r \<and> xs = ys @ r # zs
          \<and> (\<forall>y \<in> set ys. key r < key y) \<and> (\<forall>z \<in> set zs. key r \<le> key z)"
proof -
  from assms obtain x xs' where xs: "xs = x # xs'" by (cases xs) auto
  from py_min_split[of x xs' key] show ?thesis unfolding xs by simp
qed

lemma map_filter_barbers_fst:
  "map fst (List.map_filter (\<lambda>r. map_option (Pair r) (as_Barber (h r))) rs) =
     filter (\<lambda>r. isinstance_Barber (h r)) rs"
  by (induction rs) (auto simp: map_filter_simps isinstance_Barber_def split: option.splits)

lemma barbers_fst:
  "map fst (barbers v) = filter (\<lambda>r. isinstance_Barber (heap v r)) (residents v)"
  by (simp add: barbers_def map_filter_barbers_fst)

lemma barbers_heap:
  assumes "(r, b) \<in> set (barbers v)"
  shows "heap v r = Bar b \<and> r \<in> set (residents v)"
proof -
  from assms obtain x where x: "x \<in> set (residents v)"
    and eq: "map_option (Pair x) (as_Barber (heap v x)) = Some (r, b)"
    by (auto simp: barbers_def map_filter_def)
  from eq have "x = r" and "as_Barber (heap v r) = Some b" by auto
  moreover from this have "heap v r = Bar b" by (cases "heap v r") auto
  ultimately show ?thesis using x by simp
qed

lemma has_barber_barbers: "has_barber v \<longleftrightarrow> barbers v \<noteq> []"
proof -
  have "barbers v \<noteq> [] \<longleftrightarrow> map fst (barbers v) \<noteq> []" by simp
  also have "\<dots> \<longleftrightarrow> has_barber v"
    unfolding barbers_fst has_barber_def by (simp add: filter_empty_conv)
  finally show ?thesis by simp
qed

lemma has_barber_residents: "has_barber v \<Longrightarrow> residents v \<noteq> []"
  by (auto simp: has_barber_def)

lemma get_next_shave_ok:
  assumes "residents v \<noteq> []"
  shows "\<exists>r. get_next_shave v = Inr r \<and> r \<in> set (residents v)"
proof -
  from py_min_first[OF assms, of "\<lambda>x. obj_next_shave_time (heap v x)"]
  obtain r ys zs where "get_next_shave v = Inr r" and "residents v = ys @ r # zs"
    unfolding get_next_shave_def by blast
  then show ?thesis by auto
qed

lemma get_next_free_barber_ok:
  assumes "has_barber v"
  shows "\<exists>b bb. get_next_free_barber v = Inr (b, bb) \<and> heap v b = Bar bb \<and> b \<in> set (residents v)"
proof -
  from assms have "barbers v \<noteq> []" by (simp add: has_barber_barbers)
  from py_min_first[OF this, of "\<lambda>x. busy_till (snd x)"]
  obtain x ys zs where sel: "get_next_free_barber v = Inr x" and split: "barbers v = ys @ x # zs"
    unfolding get_next_free_barber_def by blast
  obtain b bb where x: "x = (b, bb)" by (cases x)
  from split have "(b, bb) \<in> set (barbers v)" by (simp add: x)
  from barbers_heap[OF this] sel show ?thesis by (simp add: x)
qed

lemma get_next_free_barber_none:
  "\<not> has_barber v \<Longrightarrow> get_next_free_barber v = Inl ValueError"
  by (simp add: has_barber_barbers get_next_free_barber_def)

lemma get_next_shave_none:
  "residents v = [] \<Longrightarrow> get_next_shave v = Inl ValueError"
  by (simp add: get_next_shave_def)

section \<open>One shave\<close>

lemma py_max_max: "py_max a b = max a b"
  by (auto simp: py_max_def max_def)

lemma shave_None:
  assumes "heap v self = Bar b"
  shows "shave None self time resident v =
    Returned (v\<lparr>heap := (heap v)
                  (self := Bar (b\<lparr>busy_till := time + shave_time b\<rparr>),
                   resident := obj_set_last_shave_time (time + shave_time b)
                     (((heap v)(self := Bar (b\<lparr>busy_till := time + shave_time b\<rparr>))) resident)),
                stdout := stdout v
                  @ [Shaves time (name b) (obj_name (heap v resident))]
                  @ (if resident = self then [Himself] else [])
                  @ (if time \<noteq> obj_next_shave_time (heap v resident) then [Late] else [])
                  @ [Newline]\<rparr>)"
  using assms by (simp add: shave_def print_def Let_def)

lemma step_None_select:
  assumes "get_next_shave v = Inr r" and "get_next_free_barber v = Inr (b, bb)"
  shows "step None v = shave None b (max (obj_next_shave_time (heap v r)) (busy_till bb)) r v"
  using assms by (simp add: step_def py_max_max)

lemma obj_set_last_shave_time_simps [simp]:
  "obj_name (obj_set_last_shave_time t x) = obj_name x"
  "obj_beard_growth_time (obj_set_last_shave_time t x) = obj_beard_growth_time x"
  "obj_last_shave_time (obj_set_last_shave_time t x) = t"
  "obj_shave_time (obj_set_last_shave_time t x) = obj_shave_time x"
  "obj_busy_till (obj_set_last_shave_time t x) = obj_busy_till x"
  "isinstance_Barber (obj_set_last_shave_time t x) = isinstance_Barber x"
  by (cases x; simp add: set_last_shave_time_def obj_shave_time_def obj_busy_till_def
        isinstance_Barber_def)+

lemma Bar_busy_simps [simp]:
  "obj_name (Bar (b\<lparr>busy_till := t\<rparr>)) = name b"
  "obj_beard_growth_time (Bar (b\<lparr>busy_till := t\<rparr>)) = beard_growth_time b"
  "obj_last_shave_time (Bar (b\<lparr>busy_till := t\<rparr>)) = last_shave_time b"
  "obj_shave_time (Bar (b\<lparr>busy_till := t\<rparr>)) = Some (shave_time b)"
  "obj_busy_till (Bar (b\<lparr>busy_till := t\<rparr>)) = Some t"
  "isinstance_Barber (Bar b)"
  "obj_shave_time (Bar b) = Some (shave_time b)"
  "obj_busy_till (Bar b) = Some (busy_till b)"
  "\<not> isinstance_Barber (Res r)"
  "obj_shave_time (Res r) = None"
  "obj_busy_till (Res r) = None"
  by (simp_all add: obj_shave_time_def obj_busy_till_def isinstance_Barber_def)

lemma shave_events_append [simp]:
  "shave_events (xs @ ys) = shave_events xs + shave_events ys"
  by (simp add: shave_events_def)

lemma shave_events_simps [simp]:
  "shave_events [] = 0"
  "shave_events (Shaves t a b # xs) = Suc (shave_events xs)"
  "shave_events (Himself # xs) = shave_events xs"
  "shave_events (Late # xs) = shave_events xs"
  "shave_events (Newline # xs) = shave_events xs"
  by (simp_all add: shave_events_def)

lemma set_last_shave_time_simps [simp]:
  "name (set_last_shave_time t r) = name r"
  "beard_growth_time (set_last_shave_time t r) = beard_growth_time r"
  "last_shave_time (set_last_shave_time t r) = t"
  "shave_time (set_last_shave_time t b) = shave_time b"
  "busy_till (set_last_shave_time t b) = busy_till b"
  by (simp_all add: set_last_shave_time_def)

text \<open>The heap after a shave, read at any reference.\<close>

lemma shave_None_heap:
  assumes "heap v self = Bar b" and "shave None self time resident v = Returned v'"
  shows "heap v' x =
    (if x = resident
     then obj_set_last_shave_time (time + shave_time b)
            (if resident = self then Bar (b\<lparr>busy_till := time + shave_time b\<rparr>)
             else heap v resident)
     else if x = self then Bar (b\<lparr>busy_till := time + shave_time b\<rparr>)
     else heap v x)"
  using assms(2) unfolding shave_None[OF assms(1)] by auto

text \<open>What a shave leaves as it was.\<close>

lemma shave_None_frame:
  assumes "heap v self = Bar b" and "shave None self time resident v = Returned v'"
  shows "residents v' = residents v"
    and "obj_name (heap v' x) = obj_name (heap v x)"
    and "obj_beard_growth_time (heap v' x) = obj_beard_growth_time (heap v x)"
    and "obj_shave_time (heap v' x) = obj_shave_time (heap v x)"
    and "isinstance_Barber (heap v' x) = isinstance_Barber (heap v x)"
    and "x \<noteq> resident \<Longrightarrow> obj_last_shave_time (heap v' x) = obj_last_shave_time (heap v x)"
    and "x \<noteq> self \<Longrightarrow> obj_busy_till (heap v' x) = obj_busy_till (heap v x)"
    and "x \<noteq> self \<Longrightarrow> x \<noteq> resident \<Longrightarrow> heap v' x = heap v x"
    and "shave_events (stdout v') = Suc (shave_events (stdout v))"
proof -
  note h = shave_None_heap[OF assms]
  show "residents v' = residents v"
    using assms(2) unfolding shave_None[OF assms(1)] by auto
  show "shave_events (stdout v') = Suc (shave_events (stdout v))"
    using assms(2) unfolding shave_None[OF assms(1)] by auto
  show "obj_name (heap v' x) = obj_name (heap v x)"
    using assms(1) by (cases "x = resident"; cases "x = self"; simp add: h)
  show "obj_beard_growth_time (heap v' x) = obj_beard_growth_time (heap v x)"
    using assms(1) by (cases "x = resident"; cases "x = self"; simp add: h)
  show "obj_shave_time (heap v' x) = obj_shave_time (heap v x)"
    using assms(1) by (cases "x = resident"; cases "x = self"; simp add: h)
  show "isinstance_Barber (heap v' x) = isinstance_Barber (heap v x)"
    using assms(1) by (cases "x = resident"; cases "x = self"; simp add: h)
  show "x \<noteq> resident \<Longrightarrow> obj_last_shave_time (heap v' x) = obj_last_shave_time (heap v x)"
    using assms(1) by (cases "x = self"; simp add: h)
  show "x \<noteq> self \<Longrightarrow> obj_busy_till (heap v' x) = obj_busy_till (heap v x)"
    using assms(1) by (cases "x = resident"; simp add: h)
  show "x \<noteq> self \<Longrightarrow> x \<noteq> resident \<Longrightarrow> heap v' x = heap v x"
    by (simp add: h)
qed

text \<open>What a shave writes.\<close>

lemma shave_None_effect:
  assumes "heap v self = Bar b" and "shave None self time resident v = Returned v'"
  shows "obj_busy_till (heap v' self) = Some (time + shave_time b)"
    and "obj_last_shave_time (heap v' resident) = time + shave_time b"
  by (simp_all add: shave_None_heap[OF assms])

lemma shave_None_returns:
  assumes "heap v self = Bar b"
  shows "\<exists>v'. shave None self time resident v = Returned v'"
  unfolding shave_None[OF assms] by blast

lemma get_next_free_barber_heap:
  assumes "get_next_free_barber v = Inr (b, bb)"
  shows "heap v b = Bar bb \<and> b \<in> set (residents v)"
proof -
  have "has_barber v"
  proof (rule ccontr)
    assume "\<not> has_barber v"
    from get_next_free_barber_none[OF this] assms show False by simp
  qed
  from get_next_free_barber_ok[OF this] assms show ?thesis by auto
qed

lemma get_next_shave_mem:
  assumes "get_next_shave v = Inr r"
  shows "r \<in> set (residents v)"
proof -
  have "residents v \<noteq> []"
    using assms by (auto simp: get_next_shave_def)
  from get_next_shave_ok[OF this] assms show ?thesis by auto
qed

text \<open>With a barber in the village, an undisturbed pass is one shave.\<close>

lemma step_None_ok:
  assumes "has_barber v"
  shows "\<exists>r b bb v'. get_next_shave v = Inr r \<and> get_next_free_barber v = Inr (b, bb)
           \<and> heap v b = Bar bb \<and> r \<in> set (residents v) \<and> b \<in> set (residents v)
           \<and> shave None b (max (obj_next_shave_time (heap v r)) (busy_till bb)) r v = Returned v'
           \<and> step None v = Returned v'"
proof -
  from get_next_shave_ok[OF has_barber_residents[OF assms]]
  obtain r where r: "get_next_shave v = Inr r" "r \<in> set (residents v)" by blast
  from get_next_free_barber_ok[OF assms]
  obtain b bb where b: "get_next_free_barber v = Inr (b, bb)" "heap v b = Bar bb"
    "b \<in> set (residents v)" by blast
  from shave_None_returns[OF b(2)]
  obtain v' where v': "shave None b (max (obj_next_shave_time (heap v r)) (busy_till bb)) r v
      = Returned v'" by blast
  with step_None_select[OF r(1) b(1)] have "step None v = Returned v'" by simp
  with r b v' show ?thesis by blast
qed

lemma step_None_has_barber:
  assumes "has_barber v" and "step None v = Returned v'"
  shows "has_barber v'"
proof -
  from step_None_ok[OF assms(1)] assms(2)
  obtain r b bb where b: "heap v b = Bar bb"
    and sh: "shave None b (max (obj_next_shave_time (heap v r)) (busy_till bb)) r v = Returned v'"
    by auto
  from assms(1) show ?thesis
    unfolding has_barber_def shave_None_frame(1,5)[OF b sh] .
qed

lemma step_None_events:
  assumes "has_barber v" and "step None v = Returned v'"
  shows "shave_events (stdout v') = Suc (shave_events (stdout v))"
proof -
  from step_None_ok[OF assms(1)] assms(2)
  obtain r b bb where b: "heap v b = Bar bb"
    and sh: "shave None b (max (obj_next_shave_time (heap v r)) (busy_till bb)) r v = Returned v'"
    by auto
  from shave_None_frame(9)[OF b sh] show ?thesis .
qed

section \<open>The loop\<close>

lemma due_None [simp]: "due None i = None"
  by (simp add: due_def)

lemma due_Some [simp]: "due (Some (k, p)) i = (if k = i then Some p else None)"
  by (simp add: due_def)

lemma run_loop_stop:
  "range_stops count i \<Longrightarrow> run_loop count i intr v = Some (Returned v)"
  by (subst run_loop.simps) simp

lemma run_loop_Returned:
  "\<not> range_stops count i \<Longrightarrow> step (due intr i) v = Returned v' \<Longrightarrow>
   run_loop count i intr v = run_loop count (i + 1) intr v'"
  by (subst run_loop.simps) simp

lemma run_loop_Raised:
  "\<not> range_stops count i \<Longrightarrow> step (due intr i) v = Raised e v' \<Longrightarrow>
   run_loop count i intr v = Some (Raised e v')"
  by (subst run_loop.simps) simp

text \<open>A finite undisturbed loop returns after the passes that are left.\<close>

lemma run_loop_finite:
  assumes "has_barber v" and "i \<le> count" and "n = nat (count - i)" and "0 \<le> count"
  shows "\<exists>v'. run_loop count i None v = Some (Returned v') \<and> has_barber v'
           \<and> shave_events (stdout v') = shave_events (stdout v) + n"
  using assms
proof (induction n arbitrary: i v)
  case 0
  then have stop: "range_stops count i" by (simp add: range_stops_def)
  have "run_loop count i None v = Some (Returned v)" by (rule run_loop_stop[OF stop])
  with 0 show ?case by simp
next
  case (Suc n)
  then have go: "\<not> range_stops count i" by (simp add: range_stops_def)
  from step_None_ok[OF Suc.prems(1)] obtain v1 where v1: "step None v = Returned v1" by blast
  have hb: "has_barber v1" by (rule step_None_has_barber[OF Suc.prems(1) v1])
  have ev: "shave_events (stdout v1) = Suc (shave_events (stdout v))"
    by (rule step_None_events[OF Suc.prems(1) v1])
  from Suc.prems have "i + 1 \<le> count" "n = nat (count - (i + 1))" by simp_all
  from Suc.IH[OF hb this Suc.prems(4)] obtain v' where
    "run_loop count (i + 1) None v1 = Some (Returned v')" "has_barber v'"
    "shave_events (stdout v') = shave_events (stdout v1) + n" by blast
  with run_loop_Returned[OF go, of None v v1] v1 ev show ?case by simp
qed

section \<open>The properties of the specification\<close>

lemmas main_defs = main_village_def main_heap_def add_resident_def Village_init_def
  Resident_init_def Barber_init_def no_barber_village_def

text \<open>
  C1. For every barber \<open>b\<close>, every reference \<open>r\<close> and every time \<open>t\<close>, the call
  \<open>b.shave(t, r)\<close> returns, and afterwards the barber's busy\_till is \<open>t\<close> plus his shave
  time and the last shave time of \<open>r\<close> is that same value, not \<open>t\<close>; \<open>r\<close> may be \<open>b\<close>.
\<close>

theorem shave_sets_both_clocks:
  assumes "heap v b = Bar bb"
  shows "\<exists>v'. shave None b t r v = Returned v'
           \<and> obj_busy_till (heap v' b) = Some (t + shave_time bb)
           \<and> obj_last_shave_time (heap v' r) = t + shave_time bb
           \<and> Some (obj_last_shave_time (heap v' r)) = obj_busy_till (heap v' b)"
proof -
  from shave_None_returns[OF assms] obtain v' where v': "shave None b t r v = Returned v'"
    by blast
  from shave_None_effect[OF assms v'] v' show ?thesis by simp
qed

theorem shave_sets_both_clocks_witness:
  "heap main_village 2 = Bar (Barber_init ''b1'' 6 1)
   \<and> (\<exists>v'. shave None 2 7 2 main_village = Returned v'
         \<and> obj_busy_till (heap v' 2) = Some 8
         \<and> obj_last_shave_time (heap v' 2) = 8)"
proof -
  have h: "heap main_village 2 = Bar (Barber_init ''b1'' 6 1)"
    by (simp add: main_defs)
  have st: "shave_time (Barber_init ''b1'' (6::int) 1) = 1"
    by (simp add: Barber_init_def)
  from shave_sets_both_clocks[OF h, of 7 2] obtain v' where
    "shave None 2 7 2 main_village = Returned v'"
    "obj_busy_till (heap v' 2) = Some 8" "obj_last_shave_time (heap v' 2) = 8"
    unfolding st by auto
  with h show ?thesis by blast
qed

text \<open>
  C6. A shave by a barber returns normally with both clocks set, and prints the header,
  then the flags, then the line break: the late flag is among the flags exactly when
  \<open>time\<close> differs from the next shave time that the resident has when the call starts,
  the self-shave flag exactly when the resident is the barber himself.
\<close>

theorem shave_flags:
  assumes "heap v self = Bar b"
  shows "\<exists>v' flags. shave None self time resident v = Returned v'
           \<and> stdout v' = stdout v
                @ Shaves time (name b) (obj_name (heap v resident)) # flags @ [Newline]
           \<and> set flags \<subseteq> {Himself, Late}
           \<and> (Late \<in> set flags \<longleftrightarrow> time \<noteq> obj_next_shave_time (heap v resident))
           \<and> (Himself \<in> set flags \<longleftrightarrow> resident = self)
           \<and> obj_busy_till (heap v' self) = Some (time + shave_time b)
           \<and> obj_last_shave_time (heap v' resident) = time + shave_time b"
proof -
  let ?flags = "(if resident = self then [Himself] else [])
      @ (if time \<noteq> obj_next_shave_time (heap v resident) then [Late] else [])"
  from shave_None_returns[OF assms] obtain v' where
    v': "shave None self time resident v = Returned v'" by blast
  have out: "stdout v' = stdout v
      @ Shaves time (name b) (obj_name (heap v resident)) # ?flags @ [Newline]"
    using v' unfolding shave_None[OF assms] by (cases "resident = self") force+
  have "set ?flags \<subseteq> {Himself, Late}"
    and "Late \<in> set ?flags \<longleftrightarrow> time \<noteq> obj_next_shave_time (heap v resident)"
    and "Himself \<in> set ?flags \<longleftrightarrow> resident = self"
    by auto
  with v' out shave_None_effect[OF assms v'] show ?thesis by blast
qed

theorem shave_flags_witness:
  "heap main_village 2 = Bar (Barber_init ''b1'' 6 1)
   \<and> (\<exists>v' flags. shave None 2 7 2 main_village = Returned v'
         \<and> stdout v' = Shaves 7 ''b1'' ''b1'' # flags @ [Newline]
         \<and> Late \<in> set flags \<and> Himself \<in> set flags)"
proof -
  have h: "heap main_village 2 = Bar (Barber_init ''b1'' 6 1)"
    by (simp add: main_defs)
  have n2: "obj_next_shave_time (heap main_village 2) = 6"
    and nm: "obj_name (heap main_village 2) = ''b1''" "name (Barber_init ''b1'' (6::int) 1) = ''b1''"
    and out: "stdout main_village = []"
    by (simp_all add: main_defs get_next_shave_time_def)
  from shave_flags[OF h, of 7 2] obtain v' flags where
    "shave None 2 7 2 main_village = Returned v'"
    "stdout v' = Shaves 7 ''b1'' ''b1'' # flags @ [Newline]"
    "Late \<in> set flags" "Himself \<in> set flags"
    unfolding n2 nm out by auto
  with h show ?thesis by blast
qed

text \<open>
  C4. In a village whose list is not empty, \<open>get_next_shave\<close> returns a reference of the
  list with the least next shave time, and among those the first of the list: every
  entry before it is due strictly later, every entry after it no earlier. With a barber
  in the village, \<open>get_next_free_barber\<close> returns in the same way the first barber with
  the least busy\_till, among the references to Barbers taken in the order of the list.
  Both are functions of the state.
\<close>

theorem selection_first_minimum:
  assumes "residents v \<noteq> []"
  shows "(\<exists>r ys zs. get_next_shave v = Inr r \<and> residents v = ys @ r # zs
            \<and> (\<forall>y \<in> set ys. obj_next_shave_time (heap v r) < obj_next_shave_time (heap v y))
            \<and> (\<forall>z \<in> set zs. obj_next_shave_time (heap v r) \<le> obj_next_shave_time (heap v z)))
       \<and> (has_barber v \<longrightarrow>
            (\<exists>b bb ys zs. get_next_free_barber v = Inr (b, bb) \<and> barbers v = ys @ (b, bb) # zs
               \<and> map fst (barbers v) = filter (\<lambda>r. isinstance_Barber (heap v r)) (residents v)
               \<and> (\<forall>x \<in> set (barbers v). heap v (fst x) = Bar (snd x))
               \<and> (\<forall>y \<in> set ys. busy_till bb < busy_till (snd y))
               \<and> (\<forall>z \<in> set zs. busy_till bb \<le> busy_till (snd z))))"
proof (intro conjI impI)
  from py_min_first[OF assms, of "\<lambda>x. obj_next_shave_time (heap v x)"]
  show "\<exists>r ys zs. get_next_shave v = Inr r \<and> residents v = ys @ r # zs
            \<and> (\<forall>y \<in> set ys. obj_next_shave_time (heap v r) < obj_next_shave_time (heap v y))
            \<and> (\<forall>z \<in> set zs. obj_next_shave_time (heap v r) \<le> obj_next_shave_time (heap v z))"
    unfolding get_next_shave_def .
next
  assume "has_barber v"
  then have ne: "barbers v \<noteq> []" by (simp add: has_barber_barbers)
  from py_min_first[OF ne, of "\<lambda>x. busy_till (snd x)"]
  obtain x ys zs where sel: "get_next_free_barber v = Inr x" and split: "barbers v = ys @ x # zs"
    and before: "\<forall>y \<in> set ys. busy_till (snd x) < busy_till (snd y)"
    and after: "\<forall>z \<in> set zs. busy_till (snd x) \<le> busy_till (snd z)"
    unfolding get_next_free_barber_def by blast
  have cls: "\<forall>x \<in> set (barbers v). heap v (fst x) = Bar (snd x)"
    using barbers_heap[of _ _ v] by auto
  from sel split before after cls barbers_fst[of v]
  show "\<exists>b bb ys zs. get_next_free_barber v = Inr (b, bb) \<and> barbers v = ys @ (b, bb) # zs
               \<and> map fst (barbers v) = filter (\<lambda>r. isinstance_Barber (heap v r)) (residents v)
               \<and> (\<forall>x \<in> set (barbers v). heap v (fst x) = Bar (snd x))
               \<and> (\<forall>y \<in> set ys. busy_till bb < busy_till (snd y))
               \<and> (\<forall>z \<in> set zs. busy_till bb \<le> busy_till (snd z))"
    by (cases x) auto
qed

theorem selection_first_minimum_witness:
  "residents tie_village \<noteq> [] \<and> has_barber tie_village
   \<and> get_next_shave tie_village = Inr 1
   \<and> map_sum id fst (get_next_free_barber tie_village) = Inr 3"
proof -
  have ne: "residents tie_village \<noteq> []"
    by (simp add: tie_village_def tie_heap_def main_defs)
  have hb: "has_barber tie_village"
    by (simp add: has_barber_def tie_village_def tie_heap_def main_defs isinstance_Barber_def)
  have bs: "barbers tie_village = [(3, Barber_init ''b1'' 6 1), (4, Barber_init ''b2'' 6 1)]"
    by (simp add: barbers_def tie_village_def tie_heap_def main_defs map_filter_simps)
  have rs: "residents tie_village = [0, 1, 2, 3, 4]"
    by (simp add: tie_village_def tie_heap_def main_defs)
  have nst: "map (\<lambda>x. obj_next_shave_time (heap tie_village x)) [0, 1, 2, 3, 4] = [5, 4, 4, 6, 6]"
    by (simp add: tie_village_def tie_heap_def main_defs get_next_shave_time_def)
  from selection_first_minimum[OF ne] hb obtain r ys zs b bb ys' zs' where
    r: "get_next_shave tie_village = Inr r" "residents tie_village = ys @ r # zs"
      "\<forall>y \<in> set ys. obj_next_shave_time (heap tie_village r)
          < obj_next_shave_time (heap tie_village y)"
      "\<forall>z \<in> set zs. obj_next_shave_time (heap tie_village r)
          \<le> obj_next_shave_time (heap tie_village z)"
    and b: "get_next_free_barber tie_village = Inr (b, bb)"
      "barbers tie_village = ys' @ (b, bb) # zs'"
      "\<forall>y \<in> set ys'. busy_till bb < busy_till (snd y)"
    by blast
  have "r = 1"
    using r(1) by (simp add: get_next_shave_def rs) (use nst in simp)
  moreover have "b = 3"
    using b(1) by (simp add: get_next_free_barber_def bs Barber_init_def)
  ultimately show ?thesis using ne hb r(1) b(1) by simp
qed

lemma run_Returned:
  "run_loop count 0 intr v = Some (Returned v') \<Longrightarrow> run count intr v = Some (Returned v')"
  by (simp add: run_def)

lemma run_Raised:
  "run_loop count 0 intr v = Some (Raised e v') \<Longrightarrow>
   run count intr v = (if e = KeyboardInterrupt then Some (Returned v') else Some (Raised e v'))"
  by (simp add: run_def)

lemma step_None_no_barber:
  assumes "\<not> has_barber v"
  shows "step None v = Raised ValueError v"
proof (cases "residents v = []")
  case True
  from get_next_shave_none[OF this] show ?thesis by (simp add: step_def)
next
  case False
  from get_next_shave_ok[OF this] obtain r where "get_next_shave v = Inr r" by blast
  with get_next_free_barber_none[OF assms] show ?thesis by (simp add: step_def)
qed

text \<open>
  C3 (as the code has it). In a village without a barber, \<open>get_next_free_barber\<close>
  raises the \<open>ValueError\<close> of \<open>min\<close> on the empty sequence; the code defines no
  error of its own, and a run that enters the loop lets that \<open>ValueError\<close> escape to
  its caller, with the state as it was.
\<close>

theorem no_barber_ValueError:
  assumes "\<not> has_barber v"
  shows "get_next_free_barber v = Inl ValueError
       \<and> (\<not> range_stops count 0 \<longrightarrow> run count None v = Some (Raised ValueError v))"
proof (intro conjI impI)
  show "get_next_free_barber v = Inl ValueError"
    by (rule get_next_free_barber_none[OF assms])
next
  assume go: "\<not> range_stops count 0"
  have "step (due None 0) v = Raised ValueError v"
    by (simp add: step_None_no_barber[OF assms])
  from run_loop_Raised[OF go this] show "run count None v = Some (Raised ValueError v)"
    by (simp add: run_Raised)
qed

theorem no_barber_ValueError_witness:
  "\<not> has_barber no_barber_village \<and> \<not> range_stops 20 0
   \<and> get_next_free_barber no_barber_village = Inl ValueError
   \<and> run 20 None no_barber_village = Some (Raised ValueError no_barber_village)"
proof -
  have nb: "\<not> has_barber no_barber_village"
    by (simp add: has_barber_def main_defs isinstance_Barber_def)
  have go: "\<not> range_stops 20 0" by (simp add: range_stops_def)
  from no_barber_ValueError[OF nb, of 20] nb go show ?thesis by simp
qed

theorem no_barber_counterexample:
  "barbers no_barber_village = []
   \<and> get_next_free_barber no_barber_village = Inl ValueError
   \<and> run 1 None no_barber_village = Some (Raised ValueError no_barber_village)"
proof -
  have bs: "barbers no_barber_village = []"
    by (simp add: barbers_def main_defs map_filter_simps)
  have sel: "get_next_shave no_barber_village = Inr 0"
    by (simp add: get_next_shave_def main_defs get_next_shave_time_def)
  have nb: "get_next_free_barber no_barber_village = Inl ValueError"
    by (simp add: get_next_free_barber_def bs)
  have "step None no_barber_village = Raised ValueError no_barber_village"
    by (simp add: step_def sel nb)
  then have "run_loop 1 0 None no_barber_village = Some (Raised ValueError no_barber_village)"
    by (subst run_loop.simps) (simp add: range_stops_def)
  then show ?thesis using bs nb by (simp add: run_def)
qed

text \<open>
  C8. \<open>run(0)\<close> returns at once with the state it was given: no shave is printed, and
  no field of any object, nor the list, has changed. This holds for every village, also
  one without a barber, and wherever an interrupt would have been due.
\<close>

theorem run_zero_unchanged: "run 0 intr v = Some (Returned v)"
proof -
  have stop: "range_stops 0 0" by (simp add: range_stops_def)
  show ?thesis by (simp add: run_def run_loop_stop[OF stop])
qed

text \<open>
  C7. The driver's village: the first pass selects r1 (reference 0) and b1 (reference
  2, idle), the time of the shave is \<open>max 2 0 = 2\<close>, and the pass leaves b1 busy till 3
  and r1 last shaved at 3, printing the header and the line break with no late flag.
\<close>

theorem main_first_step:
  "get_next_shave main_village = Inr 0
   \<and> get_next_free_barber main_village = Inr (2, Barber_init ''b1'' 6 1)
   \<and> obj_next_shave_time (heap main_village 0) = 2
   \<and> obj_next_shave_time (heap main_village 1) = 4
   \<and> obj_next_shave_time (heap main_village 2) = 6
   \<and> busy_till (Barber_init ''b1'' (6::int) 1) = 0
   \<and> py_max (obj_next_shave_time (heap main_village 0)) (busy_till (Barber_init ''b1'' 6 1)) = 2
   \<and> step None main_village =
       Returned \<lparr>residents = [0, 1, 2],
                 heap = main_heap
                   (2 := Bar \<lparr>name = ''b1'', beard_growth_time = 6, last_shave_time = 0,
                              shave_time = 1, busy_till = 3\<rparr>,
                    0 := Res \<lparr>name = ''r1'', beard_growth_time = 2, last_shave_time = 3\<rparr>),
                 stdout = [Shaves 2 ''b1'' ''r1'', Newline]\<rparr>
   \<and> run_loop 20 0 None main_village =
       run_loop 20 1 None
         \<lparr>residents = [0, 1, 2],
          heap = main_heap
            (2 := Bar \<lparr>name = ''b1'', beard_growth_time = 6, last_shave_time = 0,
                       shave_time = 1, busy_till = 3\<rparr>,
             0 := Res \<lparr>name = ''r1'', beard_growth_time = 2, last_shave_time = 3\<rparr>),
          stdout = [Shaves 2 ''b1'' ''r1'', Newline]\<rparr>"
proof -
  have sel: "get_next_shave main_village = Inr 0"
    by (simp add: get_next_shave_def main_defs get_next_shave_time_def)
  have bs: "barbers main_village = [(2, Barber_init ''b1'' 6 1)]"
    by (simp add: barbers_def main_defs map_filter_simps)
  have bar: "get_next_free_barber main_village = Inr (2, Barber_init ''b1'' 6 1)"
    by (simp add: get_next_free_barber_def bs)
  have due: "obj_next_shave_time (heap main_village 0) = 2"
    "obj_next_shave_time (heap main_village 1) = 4"
    "obj_next_shave_time (heap main_village 2) = 6"
    by (simp_all add: main_defs get_next_shave_time_def)
  have busy: "busy_till (Barber_init ''b1'' (6::int) 1) = 0"
    by (simp add: Barber_init_def)
  have time: "py_max (obj_next_shave_time (heap main_village 0))
      (busy_till (Barber_init ''b1'' (6::int) 1)) = 2"
    by (simp add: due busy py_max_def)
  have h2: "heap main_village 2 = Bar (Barber_init ''b1'' 6 1)"
    by (simp add: main_defs)
  have st: "step None main_village =
       Returned \<lparr>residents = [0, 1, 2],
                 heap = main_heap
                   (2 := Bar \<lparr>name = ''b1'', beard_growth_time = 6, last_shave_time = 0,
                              shave_time = 1, busy_till = 3\<rparr>,
                    0 := Res \<lparr>name = ''r1'', beard_growth_time = 2, last_shave_time = 3\<rparr>),
                 stdout = [Shaves 2 ''b1'' ''r1'', Newline]\<rparr>"
    unfolding step_None_select[OF sel bar] shave_None[OF h2] due busy
    by (simp add: main_defs set_last_shave_time_def)
  have go: "\<not> range_stops 20 0" by (simp add: range_stops_def)
  have "step (due None 0) main_village =
       Returned \<lparr>residents = [0, 1, 2],
                 heap = main_heap
                   (2 := Bar \<lparr>name = ''b1'', beard_growth_time = 6, last_shave_time = 0,
                              shave_time = 1, busy_till = 3\<rparr>,
                    0 := Res \<lparr>name = ''r1'', beard_growth_time = 2, last_shave_time = 3\<rparr>),
                 stdout = [Shaves 2 ''b1'' ''r1'', Newline]\<rparr>"
    using st by simp
  from run_loop_Returned[OF go this] sel bar due busy time st show ?thesis by simp
qed

text \<open>
  C2. In a village with a barber, \<open>run(count)\<close> for a count that is not negative
  returns normally when no interrupt arrives, and the output then holds exactly \<open>count\<close>
  more shaves than before.
\<close>

theorem run_count_shaves:
  assumes "has_barber v" and "0 \<le> count"
  shows "\<exists>v'. run count None v = Some (Returned v')
           \<and> shave_events (stdout v') = shave_events (stdout v) + nat count"
proof -
  from run_loop_finite[OF assms(1), of 0 count "nat count"] assms(2)
  obtain v' where "run_loop count 0 None v = Some (Returned v')"
    "shave_events (stdout v') = shave_events (stdout v) + nat count"
    by auto
  then show ?thesis by (auto simp: run_Returned)
qed

theorem run_count_shaves_witness:
  "has_barber main_village \<and> (0::int) \<le> 20
   \<and> (\<exists>v'. run 20 None main_village = Some (Returned v') \<and> shave_events (stdout v') = 20)"
proof -
  have hb: "has_barber main_village"
    by (simp add: has_barber_def main_defs isinstance_Barber_def)
  have out: "stdout main_village = []" by (simp add: main_defs)
  from run_count_shaves[OF hb, of 20] hb show ?thesis by (simp add: out)
qed

text \<open>
  C5. A pass of the loop that no interrupt disturbs, in a village with a barber: it
  selects the resident of \<open>get_next_shave\<close> and the barber of \<open>get_next_free_barber\<close>,
  takes the later of the resident's next shave time and the barber's busy\_till as the
  time, and is exactly the shave of that resident by that barber at that time, after
  which the loop goes on with the next pass. One shave is printed; the list is as
  before, every object other than the two is as before, and of the two nothing but the
  resident's last shave time and the barber's busy\_till has changed.
\<close>

theorem step_is_one_shave:
  assumes "has_barber v" and "\<not> range_stops count i" and "due intr i = None"
  shows "\<exists>r b bb v'.
           get_next_shave v = Inr r \<and> get_next_free_barber v = Inr (b, bb)
         \<and> heap v b = Bar bb
         \<and> step None v = Returned v'
         \<and> shave None b (max (obj_next_shave_time (heap v r)) (busy_till bb)) r v = Returned v'
         \<and> run_loop count i intr v = run_loop count (i + 1) intr v'
         \<and> residents v' = residents v
         \<and> shave_events (stdout v') = shave_events (stdout v) + 1
         \<and> (\<forall>x. (x \<noteq> r \<longrightarrow> x \<noteq> b \<longrightarrow> heap v' x = heap v x)
                \<and> obj_name (heap v' x) = obj_name (heap v x)
                \<and> obj_beard_growth_time (heap v' x) = obj_beard_growth_time (heap v x)
                \<and> obj_shave_time (heap v' x) = obj_shave_time (heap v x)
                \<and> isinstance_Barber (heap v' x) = isinstance_Barber (heap v x)
                \<and> (x \<noteq> r \<longrightarrow> obj_last_shave_time (heap v' x) = obj_last_shave_time (heap v x))
                \<and> (x \<noteq> b \<longrightarrow> obj_busy_till (heap v' x) = obj_busy_till (heap v x)))"
proof -
  from step_None_ok[OF assms(1)] obtain r b bb v' where
    sel: "get_next_shave v = Inr r" "get_next_free_barber v = Inr (b, bb)"
    and b: "heap v b = Bar bb"
    and sh: "shave None b (max (obj_next_shave_time (heap v r)) (busy_till bb)) r v = Returned v'"
    and st: "step None v = Returned v'"
    by blast
  from st assms(3) have "step (due intr i) v = Returned v'" by simp
  from run_loop_Returned[OF assms(2) this]
  have loop: "run_loop count i intr v = run_loop count (i + 1) intr v'" .
  note fr = shave_None_frame[OF b sh]
  have "\<forall>x. (x \<noteq> r \<longrightarrow> x \<noteq> b \<longrightarrow> heap v' x = heap v x)
                \<and> obj_name (heap v' x) = obj_name (heap v x)
                \<and> obj_beard_growth_time (heap v' x) = obj_beard_growth_time (heap v x)
                \<and> obj_shave_time (heap v' x) = obj_shave_time (heap v x)
                \<and> isinstance_Barber (heap v' x) = isinstance_Barber (heap v x)
                \<and> (x \<noteq> r \<longrightarrow> obj_last_shave_time (heap v' x) = obj_last_shave_time (heap v x))
                \<and> (x \<noteq> b \<longrightarrow> obj_busy_till (heap v' x) = obj_busy_till (heap v x))"
    using fr(2-8) by blast
  with sel b sh st loop fr(1) fr(9) show ?thesis by auto
qed

theorem step_is_one_shave_witness:
  "has_barber main_village \<and> \<not> range_stops 20 0 \<and> due None 0 = None
   \<and> (\<exists>v'. step None main_village = Returned v'
          \<and> shave None 2 2 0 main_village = Returned v'
          \<and> run_loop 20 0 None main_village = run_loop 20 1 None v'
          \<and> heap v' 1 = heap main_village 1)"
proof -
  have hb: "has_barber main_village"
    by (simp add: has_barber_def main_defs isinstance_Barber_def)
  have go: "\<not> range_stops 20 0" by (simp add: range_stops_def)
  have sel: "get_next_shave main_village = Inr 0"
    by (simp add: get_next_shave_def main_defs get_next_shave_time_def)
  have bs: "barbers main_village = [(2, Barber_init ''b1'' 6 1)]"
    by (simp add: barbers_def main_defs map_filter_simps)
  have bar: "get_next_free_barber main_village = Inr (2, Barber_init ''b1'' 6 1)"
    by (simp add: get_next_free_barber_def bs)
  have time: "max (obj_next_shave_time (heap main_village 0))
      (busy_till (Barber_init ''b1'' (6::int) 1)) = 2"
    by (simp add: main_defs get_next_shave_time_def)
  from step_is_one_shave[OF hb go due_None] obtain r b bb v' where
    "get_next_shave main_village = Inr r" "get_next_free_barber main_village = Inr (b, bb)"
    "step None main_village = Returned v'"
    "shave None b (max (obj_next_shave_time (heap main_village r)) (busy_till bb)) r
       main_village = Returned v'"
    "run_loop 20 0 None main_village = run_loop 20 (0 + 1) None v'"
    "\<forall>x. x \<noteq> r \<longrightarrow> x \<noteq> b \<longrightarrow> heap v' x = heap main_village x"
    by blast
  with sel bar time have "step None main_village = Returned v'"
    "shave None 2 2 0 main_village = Returned v'"
    "run_loop 20 0 None main_village = run_loop 20 1 None v'"
    "heap v' 1 = heap main_village 1"
    by auto
  with hb go show ?thesis by auto
qed















text \<open>With a barber in the village, the interrupt is raised wherever in the pass it is due.\<close>

lemma step_interrupted:
  assumes "has_barber v"
  shows "\<exists>v'. step (Some p) v = Raised KeyboardInterrupt v'"
proof -
  from step_None_ok[OF assms] obtain r b bb where
    sel: "get_next_shave v = Inr r" "get_next_free_barber v = Inr (b, bb)"
    and b: "heap v b = Bar bb"
    by blast
  show ?thesis
    by (cases p) (simp_all add: step_def sel shave_def b Let_def)
qed

lemma run_loop_interrupted:
  assumes "has_barber v" and "0 \<le> i" and "i \<le> k" and "count = -1 \<or> k < count"
    and "n = nat (k - i)"
  shows "\<exists>vk v'. run_loop k i None v = Some (Returned vk)
           \<and> has_barber vk
           \<and> step (Some p) vk = Raised KeyboardInterrupt v'
           \<and> run_loop count i (Some (k, p)) v = Some (Raised KeyboardInterrupt v')"
  using assms
proof (induction n arbitrary: i v)
  case 0
  then have ik: "i = k" by simp
  from 0 have stop: "range_stops k i" by (simp add: range_stops_def)
  from 0 have go: "\<not> range_stops count i" by (auto simp: range_stops_def)
  have a: "run_loop k i None v = Some (Returned v)" by (rule run_loop_stop[OF stop])
  from step_interrupted[OF 0(1), of p] obtain v' where
    v': "step (Some p) v = Raised KeyboardInterrupt v'" by blast
  then have "step (due (Some (k, p)) i) v = Raised KeyboardInterrupt v'" by (simp add: ik)
  from run_loop_Raised[OF go this] a v' 0(1) show ?case by blast
next
  case (Suc n)
  then have lt: "i < k" by simp
  then have go1: "\<not> range_stops k i" by (simp add: range_stops_def)
  from lt Suc.prems have go2: "\<not> range_stops count i" by (auto simp: range_stops_def)
  from step_None_ok[OF Suc.prems(1)] obtain v1 where v1: "step None v = Returned v1" by blast
  have hb: "has_barber v1" by (rule step_None_has_barber[OF Suc.prems(1) v1])
  from lt have d: "due (Some (k, p)) i = None" by simp
  from Suc.prems lt have "0 \<le> i + 1" "i + 1 \<le> k" "n = nat (k - (i + 1))" by simp_all
  from Suc.IH[OF hb this(1,2) Suc.prems(4) this(3)] obtain vk v' where
    ih: "run_loop k (i + 1) None v1 = Some (Returned vk)" "has_barber vk"
      "step (Some p) vk = Raised KeyboardInterrupt v'"
      "run_loop count (i + 1) (Some (k, p)) v1 = Some (Raised KeyboardInterrupt v')"
    by blast
  from run_loop_Returned[OF go1, of None v v1] v1
  have a: "run_loop k i None v = run_loop k (i + 1) None v1" by simp
  from run_loop_Returned[OF go2, of "Some (k, p)" v v1] v1 d
  have c: "run_loop count i (Some (k, p)) v = run_loop count (i + 1) (Some (k, p)) v1"
    by simp
  from a c ih show ?case by auto
qed

text \<open>
  C9 (as the code has it). In a village with a barber, an interrupt that is raised
  during pass \<open>k\<close> of the loop, of a run without end or of one with more than \<open>k\<close>
  passes, ends the run: \<open>run\<close> returns normally, and the state it leaves is the state
  after \<open>k\<close> whole passes and the part of the next pass that lies before the place
  where the interrupt was raised. The pass that was running is given up, not completed.
\<close>

theorem interrupt_returns:
  assumes "has_barber v" and "0 \<le> k" and "count = -1 \<or> k < count"
  shows "\<exists>vk v'. run k None v = Some (Returned vk)
           \<and> step (Some p) vk = Raised KeyboardInterrupt v'
           \<and> run count (Some (k, p)) v = Some (Returned v')"
proof -
  from run_loop_interrupted[where i = 0 and n = "nat k" and p = p, OF assms(1) _ assms(2,3)]
  obtain vk v' where "run_loop k 0 None v = Some (Returned vk)"
    "step (Some p) vk = Raised KeyboardInterrupt v'"
    "run_loop count 0 (Some (k, p)) v = Some (Raised KeyboardInterrupt v')"
    by auto
  then show ?thesis by (auto simp: run_Returned run_Raised)
qed

theorem interrupt_returns_witness:
  "has_barber main_village \<and> (0::int) \<le> 3 \<and> ((-1::int) = -1 \<or> (3::int) < -1)
   \<and> (\<exists>vk v'. run 3 None main_village = Some (Returned vk)
          \<and> step (Some L68) vk = Raised KeyboardInterrupt v'
          \<and> run (-1) (Some (3, L68)) main_village = Some (Returned v'))"
proof -
  have hb: "has_barber main_village"
    by (simp add: has_barber_def main_defs isinstance_Barber_def)
  from interrupt_returns[OF hb, of 3 "-1" L68] hb show ?thesis by simp
qed

theorem interrupt_mid_step_counterexample:
  "run (-1) (Some (0, L69)) main_village = Some (Returned main_interrupted)
   \<and> step None main_village = Returned main_stepped
   \<and> main_interrupted \<noteq> main_village \<and> main_interrupted \<noteq> main_stepped
   \<and> obj_busy_till (heap main_interrupted 2) = Some 3
   \<and> obj_last_shave_time (heap main_interrupted 0) = 0
   \<and> obj_last_shave_time (heap main_stepped 0) = 3"
proof -
  have sel: "get_next_shave main_village = Inr 0"
    by (simp add: get_next_shave_def main_defs get_next_shave_time_def)
  have bs: "barbers main_village = [(2, Barber_init ''b1'' 6 1)]"
    by (simp add: barbers_def main_defs map_filter_simps)
  have bar: "get_next_free_barber main_village = Inr (2, Barber_init ''b1'' 6 1)"
    by (simp add: get_next_free_barber_def bs)
  have h2: "heap main_village 2 = Bar (Barber_init ''b1'' 6 1)"
    by (simp add: main_defs)
  have time: "max (obj_next_shave_time (heap main_village 0))
      (busy_till (Barber_init ''b1'' (6::int) 1)) = 2"
    by (simp add: main_defs get_next_shave_time_def)
  have st: "step None main_village = Returned main_stepped"
    unfolding step_None_select[OF sel bar] shave_None[OF h2] time
    by (simp add: main_defs main_stepped_def set_last_shave_time_def get_next_shave_time_def)
  have "step (Some L69) main_village = Raised KeyboardInterrupt main_interrupted"
    by (simp add: step_def sel bar py_max_max time shave_def h2 Let_def print_def)
       (simp add: main_defs main_interrupted_def get_next_shave_time_def)
  then have "run_loop (-1) 0 (Some (0, L69)) main_village
      = Some (Raised KeyboardInterrupt main_interrupted)"
    by (subst run_loop.simps) (simp add: range_stops_def)
  then have r: "run (-1) (Some (0, L69)) main_village = Some (Returned main_interrupted)"
    by (simp add: run_Raised)
  have n1: "main_interrupted \<noteq> main_village"
  proof
    assume "main_interrupted = main_village"
    then have "stdout main_interrupted = stdout main_village" by simp
    then show False by (simp add: main_interrupted_def main_defs)
  qed
  have l0: "obj_last_shave_time (heap main_interrupted 0) = 0"
    and l3: "obj_last_shave_time (heap main_stepped 0) = 3"
    and b3: "obj_busy_till (heap main_interrupted 2) = Some 3"
    by (simp_all add: main_interrupted_def main_stepped_def main_defs)
  have n2: "main_interrupted \<noteq> main_stepped"
  proof
    assume "main_interrupted = main_stepped"
    then have "obj_last_shave_time (heap main_interrupted 0)
        = obj_last_shave_time (heap main_stepped 0)" by simp
    then show False by (simp add: l0 l3)
  qed
  from r st n1 n2 l0 l3 b3 show ?thesis by simp
qed

end
